theory Spec2Isabelle
  imports Main "HOL-Library.Sublist"
begin

section \<open>Text primitives of the Python runtime\<close>

text \<open>
  Text is a list of 8-bit characters read as ASCII code points. The functions of this
  section are the built-in string operations the repository's code calls, each written
  out on lists: \<^verbatim>\<open>str.strip\<close>, \<^verbatim>\<open>str.lower\<close>, the substring test \<^verbatim>\<open>a in b\<close>,
  \<^verbatim>\<open>str.startswith\<close>, \<^verbatim>\<open>str.split(sep)\<close>, \<^verbatim>\<open>str.split(sep, n)\<close>,
  \<^verbatim>\<open>str.splitlines\<close>, \<^verbatim>\<open>"\n".join\<close> and \<^verbatim>\<open>str.replace\<close>.
\<close>

definition LF :: char where "LF = CHR 0x0A"
definition CR :: char where "CR = CHR 0x0D"

text \<open>The ASCII characters for which \<^verbatim>\<open>str.isspace\<close> holds: tab, line feed, vertical tab,
  form feed, carriage return, the four separators 0x1C..0x1F and the blank.\<close>

definition is_space :: "char \<Rightarrow> bool" where
  "is_space c = (c \<in> set [CHR 0x09, CHR 0x0A, CHR 0x0B, CHR 0x0C, CHR 0x0D,
                            CHR 0x1C, CHR 0x1D, CHR 0x1E, CHR 0x1F, CHR 0x20])"

definition strip :: "string \<Rightarrow> string" where
  "strip s = rev (dropWhile is_space (rev (dropWhile is_space s)))"

definition lower_char :: "char \<Rightarrow> char" where
  "lower_char c =
     (case map_of (zip ''ABCDEFGHIJKLMNOPQRSTUVWXYZ'' ''abcdefghijklmnopqrstuvwxyz'') c of
        Some d \<Rightarrow> d
      | None \<Rightarrow> c)"

definition lower :: "string \<Rightarrow> string" where
  "lower s = map lower_char s"

text \<open>\<^verbatim>\<open>sub in s\<close>: some suffix of \<open>s\<close> starts with \<open>sub\<close>.\<close>

fun is_substr :: "string \<Rightarrow> string \<Rightarrow> bool" where
  "is_substr sub [] = (sub = [])"
| "is_substr sub (c # cs) = (prefix sub (c # cs) \<or> is_substr sub cs)"

definition startswith :: "string \<Rightarrow> string \<Rightarrow> bool" where
  "startswith s p = prefix p s"

text \<open>\<^verbatim>\<open>s.split(sep)\<close> for a non-empty separator: the pieces between the non-overlapping
  occurrences of \<open>sep\<close>, found from the left. (Python raises on an empty separator; every
  call in the repository passes a literal, non-empty one.)\<close>

function split_on :: "string \<Rightarrow> string \<Rightarrow> string list" where
  "split_on sep [] = [[]]"
| "split_on sep (c # cs) =
     (if sep \<noteq> [] \<and> prefix sep (c # cs)
      then [] # split_on sep (drop (length sep) (c # cs))
      else (case split_on sep cs of
              [] \<Rightarrow> [[c]]
            | p # ps \<Rightarrow> (c # p) # ps))"
  by pat_completeness auto
termination
  by (relation "measure (\<lambda>(sep, s). length s)") (auto simp: neq_Nil_conv)


text \<open>\<^verbatim>\<open>s.splitlines()\<close>: the ASCII line boundaries are LF, CR, CR LF, VT, FF and the
  separators 0x1C, 0x1D, 0x1E; a boundary at the very end opens no further line.\<close>

definition is_linebreak :: "char \<Rightarrow> bool" where
  "is_linebreak c = (c \<in> set [CHR 0x0A, CHR 0x0B, CHR 0x0C, CHR 0x0D,
                                CHR 0x1C, CHR 0x1D, CHR 0x1E])"

fun splitlines :: "string \<Rightarrow> string list" where
  "splitlines [] = []"
| "splitlines (c # cs) =
     (if is_linebreak c then
        (case cs of
           d # ds \<Rightarrow> if c = CR \<and> d = LF then [] # splitlines ds else [] # splitlines cs
         | [] \<Rightarrow> [[]])
      else (case splitlines cs of
              [] \<Rightarrow> [[c]]
            | l # ls \<Rightarrow> (c # l) # ls))"

fun join_lines :: "string list \<Rightarrow> string" where
  "join_lines [] = []"
| "join_lines [l] = l"
| "join_lines (l # m # ls) = l @ LF # join_lines (m # ls)"

text \<open>\<^verbatim>\<open>s.replace(old, new)\<close> for a non-empty \<open>old\<close>: every non-overlapping occurrence,
  from the left.\<close>

function str_replace :: "string \<Rightarrow> string \<Rightarrow> string \<Rightarrow> string" where
  "str_replace old new [] = []"
| "str_replace old new (c # cs) =
     (if old \<noteq> [] \<and> prefix old (c # cs)
      then new @ str_replace old new (drop (length old) (c # cs))
      else c # str_replace old new cs)"
  by pat_completeness auto
termination
  by (relation "measure (\<lambda>(old, new, s). length s)") (auto simp: neq_Nil_conv)

section \<open>Command matcher (\<^verbatim>\<open>secret_verifier.py\<close>)\<close>

text \<open>\<^verbatim>\<open>normalize\<close>: \<^verbatim>\<open>re.sub(r"[^a-z0-9]+", "", s.lower())\<close>.\<close>

definition is_lower_alnum :: "char \<Rightarrow> bool" where
  "is_lower_alnum c = (c \<in> set ''abcdefghijklmnopqrstuvwxyz0123456789'')"

definition normalize :: "string \<Rightarrow> string" where
  "normalize s = filter is_lower_alnum (lower s)"

text \<open>
  \<^verbatim>\<open>re.sub(r"\[([^]]+)\].*", r"\1", t)\<close>: at the leftmost opening bracket that is followed
  by a non-empty run of characters other than the closing bracket and then the closing
  bracket, the bracketed text replaces everything up to the end of the line (the dot does
  not match a line feed); the search goes on behind the match.
\<close>

function link_sub :: "string \<Rightarrow> string" where
  "link_sub [] = []"
| "link_sub (c # cs) =
     (let run = takeWhile (\<lambda>x. x \<noteq> CHR '']'') cs; rest = dropWhile (\<lambda>x. x \<noteq> CHR '']'') cs
      in if c = CHR ''['' \<and> run \<noteq> [] \<and> rest \<noteq> []
         then run @ link_sub (dropWhile (\<lambda>x. x \<noteq> LF) (tl rest))
         else c # link_sub cs)"
  by pat_completeness auto
termination
proof (relation "measure length", goal_cases)
  case 1
  show ?case by simp
next
  case (2 c cs run rest)
  have "length (dropWhile (\<lambda>x. x \<noteq> LF) (tl rest)) \<le> length (tl rest)"
    by (rule length_dropWhile_le)
  also have "\<dots> \<le> length rest" by simp
  also have "\<dots> \<le> length cs" using 2 by (simp add: length_dropWhile_le)
  finally show ?case by simp
next
  case 3
  show ?case by simp
qed

text \<open>
  \<^verbatim>\<open>re.sub(r"\([^)]*\)$", "", t)\<close>: a parenthesis that opens, holds no closing parenthesis
  and closes at the very end of the text (or right before one final line feed) is removed.
\<close>

fun paren_sub :: "string \<Rightarrow> string" where
  "paren_sub [] = []"
| "paren_sub (c # cs) =
     (let rest = dropWhile (\<lambda>x. x \<noteq> CHR '')'') cs
      in if c = CHR ''('' \<and> (rest = '')'' \<or> rest = [CHR '')'', LF])
         then tl rest
         else c # paren_sub cs)"

text \<open>The title of a section, from its first line (line 58 of the source).\<close>

definition section_title :: "string \<Rightarrow> string" where
  "section_title first_line = strip (paren_sub (link_sub (strip first_line)))"

text \<open>
  The fenced blocks, \<^verbatim>\<open>re.findall(r"(`{3,}).*?\n(.*?)\n\1", body, re.DOTALL)\<close>.
  A match at a position takes a fence of \<open>k \<ge> 3\<close> backticks (the longest run first, then
  shorter ones), skips lazily to the first line feed, and takes as its second group the
  shortest text that is followed by a line feed and the same \<open>k\<close> backticks.
  \<open>find_close k s\<close> is that second group together with the text left behind the closing
  fence; \<open>try_fence\<close> runs through the fence lengths; \<open>code_blocks\<close> is the scan of
  \<^verbatim>\<open>findall\<close>, which goes on behind a match, or one character further where none starts.
\<close>

definition BT :: char where "BT = CHR 0x60"

fun find_close :: "nat \<Rightarrow> string \<Rightarrow> (string \<times> string) option" where
  "find_close k [] = None"
| "find_close k (c # cs) =
     (if c = LF \<and> take k cs = replicate k BT then Some ([], drop k cs)
      else (case find_close k cs of
              None \<Rightarrow> None
            | Some (g, r) \<Rightarrow> Some (c # g, r)))"

fun try_fence :: "nat \<Rightarrow> string \<Rightarrow> (string \<times> string) option" where
  "try_fence 0 s = None"
| "try_fence (Suc k) s =
     (if Suc k < 3 then None
      else (case dropWhile (\<lambda>x. x \<noteq> LF) (drop (Suc k) s) of
              [] \<Rightarrow> try_fence k s
            | nl # after \<Rightarrow>
                (case find_close (Suc k) after of
                   Some m \<Rightarrow> Some m
                 | None \<Rightarrow> try_fence k s)))"

definition match_block :: "string \<Rightarrow> (string \<times> string) option" where
  "match_block s = try_fence (length (takeWhile (\<lambda>x. x = BT) s)) s"

lemma find_close_shorter:
  "find_close k s = Some (g, r) \<Longrightarrow> length r < length s"
  by (induction s arbitrary: g) (auto split: if_splits option.splits)

lemma try_fence_shorter:
  "try_fence k s = Some (g, r) \<Longrightarrow> length r < length s"
proof (induction k)
  case 0
  then show ?case by simp
next
  case (Suc k)
  show ?case
  proof (cases "dropWhile (\<lambda>x. x \<noteq> LF) (drop (Suc k) s)")
    case Nil
    with Suc show ?thesis by (simp split: if_splits del: dropWhile_eq_Nil_conv)
  next
    case (Cons nl after)
    have "length after < length (dropWhile (\<lambda>x. x \<noteq> LF) (drop (Suc k) s))"
      using Cons by simp
    also have "\<dots> \<le> length (drop (Suc k) s)" by (rule length_dropWhile_le)
    also have "\<dots> \<le> length s" by simp
    finally have after: "length after < length s" .
    show ?thesis
    proof (cases "find_close (Suc k) after")
      case None
      with Suc Cons show ?thesis by (simp split: if_splits)
    next
      case (Some m)
      with Suc.prems Cons have "Suc k < 3 \<or> m = (g, r)" by (simp split: if_splits)
      with Suc.prems have "m = (g, r)" by auto
      with Some have "length r < length after" by (simp add: find_close_shorter)
      with after show ?thesis by simp
    qed
  qed
qed

lemma match_block_shorter:
  "match_block s = Some (g, r) \<Longrightarrow> length r < length s"
  unfolding match_block_def by (rule try_fence_shorter)

function code_blocks :: "string \<Rightarrow> string list" where
  "code_blocks [] = []"
| "code_blocks (c # cs) =
     (case match_block (c # cs) of
        Some (g, r) \<Rightarrow> g # code_blocks r
      | None \<Rightarrow> code_blocks cs)"
  by pat_completeness auto
termination
  by (relation "measure length") (auto dest: match_block_shorter)

text \<open>
  The bare lines, \<^verbatim>\<open>re.findall(r"^curl[^\n\r]*$", body, re.MULTILINE | re.IGNORECASE)\<close>.
  With \<^verbatim>\<open>MULTILINE\<close> the anchors stand at the line feeds only, so a match is a whole
  piece between two line feeds: one that starts with \<^verbatim>\<open>curl\<close> in any case and holds no
  carriage return (before which the end anchor would not hold).
\<close>

definition inline_curls :: "string \<Rightarrow> string list" where
  "inline_curls body =
     filter (\<lambda>p. lower (take 4 p) = ''curl'' \<and> CR \<notin> set p) (split_on [LF] body)"

text \<open>Lines 70 to 73: the curl lines of the fenced blocks, trimmed.\<close>

definition block_commands :: "string list \<Rightarrow> string list" where
  "block_commands blocks =
     concat (map (\<lambda>block. map strip
        (filter (\<lambda>line. startswith (lower (strip line)) ''curl'') (splitlines block))) blocks)"

text \<open>Lines 78 to 80: a bare line is appended unless the list already holds it.\<close>

fun add_inline :: "string list \<Rightarrow> string list \<Rightarrow> string list" where
  "add_inline commands [] = commands"
| "add_inline commands (line # ls) =
     (if strip line \<in> set commands then add_inline commands ls
      else add_inline (commands @ [strip line]) ls)"

text \<open>The test of line 64, on the normalized title and the normalized label.\<close>

definition title_matches :: "string \<Rightarrow> string \<Rightarrow> bool" where
  "title_matches normalized_title wanted =
     (is_substr normalized_title wanted \<or> is_substr wanted normalized_title)"

text \<open>One turn of the loop over the sections (lines 54 to 80).\<close>

definition section_step :: "string \<Rightarrow> string list \<Rightarrow> string \<Rightarrow> string list" where
  "section_step wanted commands sec =
     (case splitlines sec of
        [] \<Rightarrow> commands
      | first_line # rest \<Rightarrow>
          (let title = section_title first_line in
           if title = [] then commands
           else if title_matches (normalize title) wanted
           then (let body = join_lines rest
                 in add_inline (commands @ block_commands (code_blocks body))
                      (inline_curls body))
           else commands))"

definition extract_commands :: "string \<Rightarrow> string \<Rightarrow> string list" where
  "extract_commands secret_type md_text =
     foldl (section_step (normalize secret_type)) [] (split_on ''## '' md_text)"

section \<open>Evidence parser (\<^verbatim>\<open>Api_Exposure_classifier.py\<close>)\<close>

record evidence_record =
  evidence :: string
  filename :: string
  url :: string

text \<open>
  The result of the parser is a \<^verbatim>\<open>defaultdict(list)\<close>: a dictionary that keeps its keys in
  the order of their first insertion. It is an association list with distinct keys;
  \<^verbatim>\<open>secrets[k].append(r)\<close> extends the list of an existing key in place and adds a new key
  at the end.
\<close>

type_synonym secrets = "(string \<times> evidence_record list) list"






section \<open>The environment\<close>

text \<open>
  The program talks to three things it does not contain: the AI service (the three
  functions \<^verbatim>\<open>classify\<close>, \<^verbatim>\<open>Remediation_Agent\<close> and \<^verbatim>\<open>verifier\<close>), the operating system,
  which runs a command as a subprocess, and the clock. Each is a parameter. An answer may
  depend on the moment of the call, so each takes the number of calls made so far; an
  \<open>Inl\<close> answer is the text of the exception the call raises.

  A subprocess either cannot be started (\<^verbatim>\<open>shlex.split\<close> or
  \<^verbatim>\<open>create_subprocess_exec\<close> raises), exits with a code and its two outputs before the
  timeout, or is still running when the timeout of \<^verbatim>\<open>asyncio.wait_for\<close> fires.
\<close>

datatype proc_outcome =
    SpawnFailed string
  | Exited int string string
  | TimedOut

record env =
  classify_oracle :: "nat \<Rightarrow> string \<Rightarrow> string + string \<times> string"
  remediation_oracle :: "nat \<Rightarrow> string \<Rightarrow> string + string list"
  verifier_oracle :: "nat \<Rightarrow> string \<Rightarrow> string \<Rightarrow> string \<Rightarrow> string + string \<times> string"
  subprocess :: "nat \<Rightarrow> string \<Rightarrow> nat \<Rightarrow> proc_outcome"
  clock_now :: "nat \<Rightarrow> string"

text \<open>
  The world the calls act on: the number of calls made, the invocations of
  \<^verbatim>\<open>run_command\<close> (template and token), and the commands of the subprocesses that were
  started and have not exited.
\<close>

record world =
  ticks :: nat
  run_log :: "(string \<times> string) list"
  running :: "string list"

definition tick :: "world \<Rightarrow> world" where
  "tick w = w\<lparr>ticks := Suc (ticks w)\<rparr>"

section \<open>Live verifier\<close>

subsection \<open>\<^verbatim>\<open>run_command\<close> (\<^verbatim>\<open>secret_verifier.py\<close>, lines 172 to 218)\<close>

definition replacements :: "string list" where
  "replacements = [''<your_token>'', ''API_KEY_HERE'', ''TOKEN_HERE'', ''$TOKEN'', ''$API_KEY'', ''TOKEN'']"

definition substitute :: "string \<Rightarrow> string \<Rightarrow> string" where
  "substitute cmd token =
     (if token \<noteq> [] then foldl (\<lambda>c placeholder. str_replace placeholder token c) cmd replacements
      else cmd)"

text \<open>
  The command is started and awaited under the timeout. The source has one statement for
  the wait, \<^verbatim>\<open>await asyncio.wait_for(proc.communicate(), timeout=timeout)\<close>, and nothing that
  kills or terminates \<^verbatim>\<open>proc\<close>: when the timeout fires, \<^verbatim>\<open>TimeoutError\<close> (whose text is
  empty) leaves the function and the subprocess stays among the running ones.
\<close>

definition run_command ::
  "env \<Rightarrow> string \<Rightarrow> string \<Rightarrow> nat \<Rightarrow> world \<Rightarrow> (string + int \<times> string \<times> string \<times> string) \<times> world" where
  "run_command e cmd token timeout w =
     (let executed = substitute cmd token;
          w' = tick (w\<lparr>run_log := run_log w @ [(cmd, token)]\<rparr>)
      in case subprocess e (ticks w) executed timeout of
           SpawnFailed msg \<Rightarrow> (Inl msg, w')
         | Exited code out err \<Rightarrow> (Inr (code, out, err, executed), w')
         | TimedOut \<Rightarrow> (Inl [], w'\<lparr>running := running w' @ [executed]\<rparr>))"

subsection \<open>\<^verbatim>\<open>_verify_secret_type\<close> (\<^verbatim>\<open>json_report.py\<close>, lines 59 to 165)\<close>

record attempt_result =
  command :: string
  executed_command :: "string option"
  exit_code :: "int option"
  stdout :: "string option"
  stderr :: "string option"
  error :: "string option"
  success :: bool
  ai_status :: string
  ai_analysis :: string
  evidence_used :: string

definition placeholder_terms :: "string list" where
  "placeholder_terms = [''<your_token>'', ''API_KEY_HERE'', ''TOKEN'', ''TOKEN_HERE'']"

definition has_placeholder :: "string \<Rightarrow> bool" where
  "has_placeholder cmd = list_ex (\<lambda>term. is_substr term cmd) placeholder_terms"

definition failure_markers :: "string list" where
  "failure_markers = [''unauthorized'', ''forbidden'', ''invalid'', ''denied'']"

text \<open>Lines 103 to 105.\<close>

definition looks_auth_error :: "string \<Rightarrow> string \<Rightarrow> bool" where
  "looks_auth_error out err =
     (let combined = lower (out @ [LF] @ err)
      in list_ex (\<lambda>word. is_substr word combined) failure_markers)"

definition success_heuristic :: "int \<Rightarrow> string \<Rightarrow> string \<Rightarrow> bool" where
  "success_heuristic code out err =
     (code = 0 \<and> \<not> looks_auth_error out err \<and> length (strip out) > 0)"

text \<open>Lines 120 and 134: \<^verbatim>\<open>evidence[:50] + "..." if len(evidence) > 50 else evidence\<close>.\<close>

definition shorten :: "string \<Rightarrow> string" where
  "shorten ev = (if length ev > 50 then take 50 ev @ ''...'' else ev)"

text \<open>
  The local variables of the function. \<open>loc_ai\<close> is the pair \<^verbatim>\<open>ai_status\<close>,
  \<^verbatim>\<open>ai_analysis\<close>; it is \<open>None\<close> as long as no statement has assigned the two names.
\<close>

record locals =
  loc_attempted :: bool
  loc_verified :: bool
  loc_results :: "attempt_result list"
  loc_ai :: "(string \<times> string) option"
  cmd_attempted :: bool
  cmd_verified :: bool
  best_result :: "attempt_result option"
  loc_world :: world

text \<open>Lines 91 to 96: the AI verifier is asked, and a failure becomes the status \<^verbatim>\<open>ERROR\<close>.\<close>

definition guidance :: "string + string \<times> string \<Rightarrow> string \<times> string" where
  "guidance answer = (case answer of Inl ex \<Rightarrow> (''ERROR'', ex) | Inr p \<Rightarrow> p)"

definition ask_verifier ::
  "env \<Rightarrow> string \<Rightarrow> string \<Rightarrow> string \<Rightarrow> world \<Rightarrow> (string \<times> string) \<times> world" where
  "ask_verifier e secret_type ev cmd w =
     (guidance (verifier_oracle e (ticks w) secret_type ev cmd), tick w)"

text \<open>Lines 111 to 121 and 128 to 135: the two shapes of a result.\<close>

definition ran_result ::
  "string \<Rightarrow> string \<Rightarrow> int \<Rightarrow> string \<Rightarrow> string \<Rightarrow> bool \<Rightarrow> string \<times> string \<Rightarrow> string \<Rightarrow> attempt_result" where
  "ran_result cmd executed code out err ok ai ev =
     \<lparr>command = cmd, executed_command = Some executed, exit_code = Some code,
      stdout = Some (take 4000 out), stderr = Some (take 4000 err), error = None,
      success = ok, ai_status = fst ai, ai_analysis = snd ai, evidence_used = shorten ev\<rparr>"

definition failed_result :: "string \<Rightarrow> string \<Rightarrow> string \<times> string \<Rightarrow> string \<Rightarrow> attempt_result" where
  "failed_result cmd ex ai ev =
     \<lparr>command = cmd, executed_command = None, exit_code = None,
      stdout = None, stderr = None, error = Some ex,
      success = False, ai_status = fst ai, ai_analysis = snd ai, evidence_used = shorten ev\<rparr>"

text \<open>Lines 145 to 151: the record of a template for which nothing was run.\<close>

definition guidance_only :: "string \<Rightarrow> string \<times> string \<Rightarrow> attempt_result" where
  "guidance_only cmd ai =
     \<lparr>command = cmd, executed_command = None, exit_code = None,
      stdout = None, stderr = None, error = None,
      success = False, ai_status = fst ai, ai_analysis = snd ai,
      evidence_used = ''No token candidates found''\<rparr>"

text \<open>Lines 90 to 137: the body of the loop over the evidence values, for one value.\<close>

definition try_evidence :: "env \<Rightarrow> string \<Rightarrow> string \<Rightarrow> string \<Rightarrow> locals \<Rightarrow> locals" where
  "try_evidence e secret_type cmd ev L =
     (let (ai, w1) = ask_verifier e secret_type ev cmd (loc_world L);
          L1 = L\<lparr>loc_ai := Some ai, loc_world := w1\<rparr>
      in if has_placeholder cmd then
           (let L2 = L1\<lparr>cmd_attempted := True, loc_attempted := True\<rparr>;
                (answer, w2) = run_command e cmd ev 20 w1;
                L3 = L2\<lparr>loc_world := w2\<rparr>
            in case answer of
                 Inr (code, out, err, executed) \<Rightarrow>
                   (let ok = success_heuristic code out err;
                        L4 = (if ok then L3\<lparr>cmd_verified := True, loc_verified := True\<rparr> else L3);
                        result = ran_result cmd executed code out err ok ai ev
                    in case best_result L4 of
                         None \<Rightarrow> L4\<lparr>best_result := Some result\<rparr>
                       | Some best \<Rightarrow>
                           if ok \<and> \<not> success best then L4\<lparr>best_result := Some result\<rparr> else L4)
               | Inl ex \<Rightarrow>
                   (case best_result L3 of
                      None \<Rightarrow> L3\<lparr>best_result := Some (failed_result cmd ex ai ev)\<rparr>
                    | Some best \<Rightarrow> L3))
         else L1)"

text \<open>Lines 89 to 141: the loop, which line 141 leaves as soon as an attempt succeeded.\<close>

fun evidence_loop :: "env \<Rightarrow> string \<Rightarrow> string \<Rightarrow> string list \<Rightarrow> locals \<Rightarrow> locals" where
  "evidence_loop e secret_type cmd [] L = L"
| "evidence_loop e secret_type cmd (ev # evs) L =
     (let L1 = try_evidence e secret_type cmd ev L
      in if cmd_verified L1 then L1 else evidence_loop e secret_type cmd evs L1)"

text \<open>
  Lines 84 to 154: the body of the loop over the templates. Reading \<^verbatim>\<open>ai_status\<close> in line
  148 before any statement has assigned it raises \<^verbatim>\<open>UnboundLocalError\<close>; an exception
  carries the world as it is when it is raised.
\<close>

definition template_step ::
  "env \<Rightarrow> string \<Rightarrow> string list \<Rightarrow> locals \<Rightarrow> string \<Rightarrow> string \<times> world + locals" where
  "template_step e secret_type evidence_strings L cmd =
     (let L0 = L\<lparr>cmd_attempted := False, cmd_verified := False, best_result := None\<rparr>;
          L1 = evidence_loop e secret_type cmd (take 5 evidence_strings) L0
      in case (if \<not> cmd_attempted L1
               then (case loc_ai L1 of
                       None \<Rightarrow> Inl (''UnboundLocalError'', loc_world L1)
                     | Some ai \<Rightarrow> Inr (L1\<lparr>best_result := Some (guidance_only cmd ai)\<rparr>))
               else Inr L1) of
           Inl ex \<Rightarrow> Inl ex
         | Inr L2 \<Rightarrow>
             (case best_result L2 of
                None \<Rightarrow> Inr L2
              | Some best \<Rightarrow> Inr (L2\<lparr>loc_results := loc_results L2 @ [best]\<rparr>)))"

fun template_loop ::
  "env \<Rightarrow> string \<Rightarrow> string list \<Rightarrow> string list \<Rightarrow> locals \<Rightarrow> string \<times> world + locals" where
  "template_loop e secret_type evidence_strings [] L = Inr L"
| "template_loop e secret_type evidence_strings (cmd # cmds) L =
     (case template_step e secret_type evidence_strings L cmd of
        Inl ex \<Rightarrow> Inl ex
      | Inr L' \<Rightarrow> template_loop e secret_type evidence_strings cmds L')"

text \<open>
  The catalog file \<^verbatim>\<open>key_verifier.md\<close> as line 70 finds it: absent, unreadable (the read
  raises), or read.
\<close>

datatype catalog_file = Absent | Unreadable string | Contents string

text \<open>The dictionary the function returns.\<close>

record verification =
  commands :: "string list"
  attempted :: bool
  verified :: bool
  verification_error :: "string option"
  results :: "attempt_result list"

definition verify_failed :: "string \<Rightarrow> verification" where
  "verify_failed ex =
     \<lparr>commands = [], attempted = False, verified = False,
      verification_error = Some ex, results = []\<rparr>"

definition verify_secret_type ::
  "env \<Rightarrow> catalog_file \<Rightarrow> string \<Rightarrow> evidence_record list \<Rightarrow> world \<Rightarrow> verification \<times> world" where
  "verify_secret_type e catalog secret_type evid_list w =
     (case (case catalog of
              Absent \<Rightarrow> Inr []
            | Unreadable ex \<Rightarrow> Inl ex
            | Contents md_text \<Rightarrow> Inr md_text) of
        Inl ex \<Rightarrow> (verify_failed ex, w)
      | Inr md_text \<Rightarrow>
          (let cmds = (if md_text \<noteq> [] then extract_commands secret_type md_text else []);
               evidence_strings = map evidence evid_list;
               L = \<lparr>loc_attempted = False, loc_verified = False, loc_results = [],
                    loc_ai = None, cmd_attempted = False, cmd_verified = False,
                    best_result = None, loc_world = w\<rparr>
           in case template_loop e secret_type evidence_strings (take 3 cmds) L of
                Inl (ex, w') \<Rightarrow> (verify_failed ex, w')
              | Inr L' \<Rightarrow>
                  (\<lparr>commands = take 3 cmds, attempted = loc_attempted L',
                    verified = loc_verified L', verification_error = None,
                    results = loc_results L'\<rparr>, loc_world L')))"

section \<open>Finding aggregator (\<^verbatim>\<open>json_report.py\<close>, lines 14 to 28 and 167 to 225)\<close>

definition get_impact_description :: "string \<Rightarrow> string \<Rightarrow> string" where
  "get_impact_description risk secret_type =
     (case map_of
        [(''CRITICAL'', ''Attackers could potentially access, modify, or delete sensitive data using the exposed ''
             @ secret_type @ ''. This represents a severe security breach.''),
         (''HIGH'', ''Attackers could potentially access sensitive information or perform unauthorized actions using the exposed ''
             @ secret_type @ ''.''),
         (''MEDIUM'', ''The exposed '' @ secret_type
             @ '' could potentially be used for unauthorized access or data exposure.''),
         (''LOW'', ''The exposed '' @ secret_type
             @ '' may pose minimal risk but should be reviewed for potential security implications.''),
         (''INFO'', ''The exposed '' @ secret_type
             @ '' should be validated to determine if it represents a security risk.'')] risk of
        Some text \<Rightarrow> text
      | None \<Rightarrow> ''Unknown risk level.'')"

text \<open>The score of a risk level, in tenths (0.9, 0.7, 0.5, 0.3, 0.1, and 0.0 otherwise).\<close>

definition get_risk_score :: "string \<Rightarrow> nat" where
  "get_risk_score risk =
     (case map_of [(''CRITICAL'', 9), (''HIGH'', 7), (''MEDIUM'', 5), (''LOW'', 3), (''INFO'', 1)] risk of
        Some score \<Rightarrow> score
      | None \<Rightarrow> 0)"

definition highest_rank :: "(string \<times> nat) list" where
  "highest_rank = [(''CRITICAL'', 4), (''HIGH'', 3), (''MEDIUM'', 2), (''LOW'', 1), (''INFO'', 0)]"

text \<open>\<^verbatim>\<open>highest_rank.get(risk, 0)\<close>.\<close>

definition rank_of :: "string \<Rightarrow> nat" where
  "rank_of risk = (case map_of highest_rank risk of Some r \<Rightarrow> r | None \<Rightarrow> 0)"

text \<open>\<^verbatim>\<open>{v: k for k, v in highest_rank.items()}\<close>, the dictionary from ranks to names.\<close>

definition rank_name :: "nat \<Rightarrow> string option" where
  "rank_name = map_of (map (\<lambda>(k, v). (v, k)) highest_rank)"

record finding_verification =
  fv_attempted :: bool
  fv_verified :: bool
  fv_commands :: "string list"
  fv_results :: "attempt_result list"

record finding =
  finding_id :: string
  title :: string
  severity :: string
  status :: string
  endpoint :: string
  description :: string
  impact :: string
  remediation_steps :: "string list"
  validation_commands :: "string list"
  finding_verification :: finding_verification
  finding_evidence :: "string list"
  evidence_data :: "evidence_record list"
  secret_type :: string
  risk_score :: nat
  confidence_level :: string
  timestamp :: string
  category :: string

record summary =
  total_findings :: nat
  critical_findings :: nat
  high_findings :: nat
  medium_findings :: nat
  low_findings :: nat
  total_secret_types :: nat
  total_evidences :: nat

record report =
  overall_risk :: string
  summary :: summary
  findings :: "finding list"
  analysis_type :: string
  report_timestamp :: string

text \<open>Lines 184 to 207.\<close>

definition make_finding ::
  "string \<Rightarrow> evidence_record list \<Rightarrow> string \<Rightarrow> string \<Rightarrow> string list \<Rightarrow> verification \<Rightarrow> string \<Rightarrow> finding" where
  "make_finding stype evid_list risk desc steps v now =
     \<lparr>finding_id = ''api_exposure_'' @ str_replace '' '' ''_'' (lower stype),
      title = ''API Exposure - '' @ stype,
      severity = risk,
      status = ''OPEN'',
      endpoint = ''JavaScript Files'',
      description = desc,
      impact = get_impact_description risk stype,
      remediation_steps = steps,
      validation_commands = commands v,
      finding_verification =
        \<lparr>fv_attempted = attempted v, fv_verified = verified v,
         fv_commands = commands v, fv_results = results v\<rparr>,
      finding_evidence = map evidence (take 5 evid_list),
      evidence_data = take 5 evid_list,
      secret_type = stype,
      risk_score = get_risk_score risk,
      confidence_level = ''high'',
      timestamp = now,
      category = ''api_exposure''\<rparr>"

text \<open>
  Lines 173 to 208, one turn of the loop over the buckets; the state is \<^verbatim>\<open>findings\<close>,
  \<^verbatim>\<open>max_score\<close> and the world. Neither \<^verbatim>\<open>classify\<close> nor \<^verbatim>\<open>Remediation_Agent\<close> is called
  under a \<^verbatim>\<open>try\<close>: an exception of either leaves \<^verbatim>\<open>build_json_report\<close>.
\<close>

definition bucket_step ::
  "env \<Rightarrow> catalog_file \<Rightarrow> finding list \<times> nat \<times> world \<Rightarrow> string \<times> evidence_record list
     \<Rightarrow> string + finding list \<times> nat \<times> world" where
  "bucket_step e catalog st bucket =
     (case st of (fs, max_score, w) \<Rightarrow>
      case bucket of (stype, evid_list) \<Rightarrow>
      case classify_oracle e (ticks w) stype of
        Inl ex \<Rightarrow> Inl ex
      | Inr (risk, desc) \<Rightarrow>
          (let w1 = tick w;
               max_score' = max max_score (rank_of risk)
           in case remediation_oracle e (ticks w1) stype of
                Inl ex \<Rightarrow> Inl ex
              | Inr steps \<Rightarrow>
                  (let w2 = tick w1;
                       (v, w3) = verify_secret_type e catalog stype evid_list w2;
                       now = clock_now e (ticks w3);
                       w4 = tick w3
                   in Inr (fs @ [make_finding stype evid_list risk desc steps v now],
                           max_score', w4))))"

fun bucket_loop ::
  "env \<Rightarrow> catalog_file \<Rightarrow> finding list \<times> nat \<times> world \<Rightarrow> secrets
     \<Rightarrow> string + finding list \<times> nat \<times> world" where
  "bucket_loop e catalog st [] = Inr st"
| "bucket_loop e catalog st (bucket # buckets) =
     (case bucket_step e catalog st bucket of
        Inl ex \<Rightarrow> Inl ex
      | Inr st' \<Rightarrow> bucket_loop e catalog st' buckets)"

text \<open>
  \<^verbatim>\<open>sorted(findings, key=..., reverse=True)\<close>. Python's sort is stable, and with
  \<^verbatim>\<open>reverse=True\<close> it stays so: the list is reversed, sorted in ascending order and
  reversed again.
\<close>

definition sorted_reverse :: "('a \<Rightarrow> nat) \<Rightarrow> 'a list \<Rightarrow> 'a list" where
  "sorted_reverse key xs = rev (sort_key key (rev xs))"

definition count_severity :: "string \<Rightarrow> finding list \<Rightarrow> nat" where
  "count_severity risk fs = length (filter (\<lambda>f. severity f = risk) fs)"

definition build_json_report ::
  "env \<Rightarrow> catalog_file \<Rightarrow> secrets \<Rightarrow> world \<Rightarrow> string + report" where
  "build_json_report e catalog secrets w =
     (case bucket_loop e catalog ([], 0, w) secrets of
        Inl ex \<Rightarrow> Inl ex
      | Inr (fs, max_score, w') \<Rightarrow>
          (case (if fs \<noteq> [] then rank_name max_score else Some ''INFO'') of
             None \<Rightarrow> Inl ''KeyError''
           | Some risk \<Rightarrow>
               Inr \<lparr>overall_risk = risk,
                    summary =
                      \<lparr>total_findings = length fs,
                       critical_findings = count_severity ''CRITICAL'' fs,
                       high_findings = count_severity ''HIGH'' fs,
                       medium_findings = count_severity ''MEDIUM'' fs,
                       low_findings = count_severity ''LOW'' fs,
                       total_secret_types = length secrets,
                       total_evidences = sum_list (map (\<lambda>(k, v). length v) secrets)\<rparr>,
                    findings = sorted_reverse (\<lambda>f. rank_of (severity f)) fs,
                    analysis_type = ''api_exposure'',
                    report_timestamp = clock_now e (ticks w')\<rparr>))"

section \<open>Sample inputs\<close>

text \<open>Concrete inputs on which the theorems below are instantiated.\<close>

definition world0 :: world where
  "world0 = \<lparr>ticks = 0, run_log = [], running = []\<rparr>"

definition locals0 :: "world \<Rightarrow> locals" where
  "locals0 w = \<lparr>loc_attempted = False, loc_verified = False, loc_results = [],
      loc_ai = None, cmd_attempted = False, cmd_verified = False,
      best_result = None, loc_world = w\<rparr>"

text \<open>An environment whose subprocesses all end the same way, and whose classifier has no
  answer for the secret type \<^verbatim>\<open>Broken\<close>.\<close>

definition demo_env :: "proc_outcome \<Rightarrow> env" where
  "demo_env outcome =
     \<lparr>classify_oracle = (\<lambda>t stype. if stype = ''Broken'' then Inl ''no answer''
                                   else Inr (if stype = ''AWS Key'' then ''CRITICAL''
                                             else if stype = ''Slack Token'' then ''LOW''
                                             else ''HIGH'', ''text'')),
      remediation_oracle = (\<lambda>t stype. Inr [''Rotate the key'']),
      verifier_oracle = (\<lambda>t stype ev cmd. Inr (''VALID'', ''plausible'')),
      subprocess = (\<lambda>t cmd timeout. outcome),
      clock_now = (\<lambda>t. ''2025-01-01T00:00:00'')\<rparr>"

text \<open>The catalog of the matcher example, a catalog whose only template has no placeholder,
  and one evidence record.\<close>

definition example_template :: string where
  "example_template =
     ''curl -H '' @ [CHR 0x22] @ ''Authorization: token $TOKEN'' @ [CHR 0x22]
       @ '' https://api.github.com/user''"

definition example_catalog :: string where
  "example_catalog =
     ''## GitHub Token'' @ [LF] @ ''```'' @ [LF] @ example_template @ [LF] @ ''```'' @ [LF]"

definition plain_catalog :: string where
  "plain_catalog =
     ''## Plain Key'' @ [LF] @ ''```'' @ [LF] @ ''curl https://example.com/ping'' @ [LF] @ ''```'' @ [LF]"

definition example_evidence :: "evidence_record list" where
  "example_evidence = [\<lparr>evidence = ''ghp_abc'', filename = ''app.js'', url = ''https://x.com/app.js''\<rparr>]"

text \<open>Four buckets, which the sample classifier rates HIGH, CRITICAL, LOW and HIGH, and two
  buckets of which the classifier fails on the second.\<close>

definition example_secrets :: secrets where
  "example_secrets =
     [(''GitHub Token'', example_evidence),
      (''AWS Key'', [\<lparr>evidence = ''AKIA1234567890ABCD12'', filename = ''app.js'',
                     url = ''https://x.com/app.js''\<rparr>]),
      (''Slack Token'', example_evidence),
      (''Stripe Key'', example_evidence)]"




section \<open>Derived notions\<close>

text \<open>The templates \<^verbatim>\<open>_verify_secret_type\<close> finds (lines 70 to 72): none unless the catalog
  file was read and is not empty.\<close>

definition catalog_commands :: "catalog_file \<Rightarrow> string \<Rightarrow> string list" where
  "catalog_commands catalog stype =
     (case catalog of
        Contents md_text \<Rightarrow> if md_text \<noteq> [] then extract_commands stype md_text else []
      | _ \<Rightarrow> [])"

text \<open>The world an exception of the template loop carries, or the world of the locals.\<close>

definition raised_world :: "string \<times> world + locals \<Rightarrow> world" where
  "raised_world x = (case x of Inl (ex, w) \<Rightarrow> w | Inr L \<Rightarrow> loc_world L)"

text \<open>What holds of every entry of \<^verbatim>\<open>results\<close>: its template has a placeholder, or the entry
  is the record of lines 145 to 151 with the guidance for the last evidence value asked about.\<close>

definition entry_ok :: "env \<Rightarrow> string \<Rightarrow> string list \<Rightarrow> attempt_result \<Rightarrow> bool" where
  "entry_ok e stype evs r =
     (has_placeholder (command r) \<or>
      (\<exists>t. r = guidance_only (command r)
                 (guidance (verifier_oracle e t stype (last (take 5 evs)) (command r)))))"






section \<open>Facts about the text primitives\<close>




section \<open>The success heuristic\<close>








section \<open>Facts about the live verifier\<close>

lemmas try_evidence_unfold =
  try_evidence_def ask_verifier_def run_command_def tick_def Let_def

lemma try_evidence_verified_attempted:
  "loc_verified L \<longrightarrow> loc_attempted L \<Longrightarrow>
   loc_verified (try_evidence e stype cmd ev L) \<longrightarrow> loc_attempted (try_evidence e stype cmd ev L)"
  by (auto simp: try_evidence_unfold split: prod.splits sum.splits option.splits proc_outcome.splits)

lemma try_evidence_results:
  "loc_results (try_evidence e stype cmd ev L) = loc_results L"
  by (auto simp: try_evidence_unfold split: prod.splits sum.splits option.splits proc_outcome.splits)

lemma try_evidence_ai:
  "loc_ai (try_evidence e stype cmd ev L) =
     Some (guidance (verifier_oracle e (ticks (loc_world L)) stype ev cmd))"
  by (auto simp: try_evidence_unfold split: prod.splits sum.splits option.splits proc_outcome.splits)

lemma try_evidence_best_command:
  "\<forall>r. best_result L = Some r \<longrightarrow> command r = cmd \<Longrightarrow>
   best_result (try_evidence e stype cmd ev L) = Some r \<Longrightarrow> command r = cmd"
  by (auto simp: try_evidence_unfold ran_result_def failed_result_def
      split: prod.splits sum.splits option.splits proc_outcome.splits if_splits)

lemma try_evidence_best_some:
  "cmd_attempted L \<longrightarrow> best_result L \<noteq> None \<Longrightarrow>
   cmd_attempted (try_evidence e stype cmd ev L) \<longrightarrow> best_result (try_evidence e stype cmd ev L) \<noteq> None"
  by (auto simp: try_evidence_unfold
      split: prod.splits sum.splits option.splits proc_outcome.splits if_splits)

lemma try_evidence_run_log:
  "run_log (loc_world (try_evidence e stype cmd ev L)) =
     run_log (loc_world L) @ (if has_placeholder cmd then [(cmd, ev)] else [])"
  by (auto simp: try_evidence_unfold split: prod.splits sum.splits option.splits proc_outcome.splits)

lemma try_evidence_plain:
  "\<not> has_placeholder cmd \<Longrightarrow>
   cmd_attempted (try_evidence e stype cmd ev L) = cmd_attempted L \<and>
   cmd_verified (try_evidence e stype cmd ev L) = cmd_verified L \<and>
   best_result (try_evidence e stype cmd ev L) = best_result L \<and>
   ticks (loc_world (try_evidence e stype cmd ev L)) = Suc (ticks (loc_world L))"
  by (simp add: try_evidence_unfold)


lemma loop_verified_attempted:
  "loc_verified L \<longrightarrow> loc_attempted L \<Longrightarrow>
   loc_verified (evidence_loop e stype cmd evs L) \<longrightarrow> loc_attempted (evidence_loop e stype cmd evs L)"
proof (induction evs arbitrary: L)
  case Nil
  then show ?case by simp
next
  case (Cons ev evs)
  from Cons.prems have "loc_verified (try_evidence e stype cmd ev L) \<longrightarrow>
      loc_attempted (try_evidence e stype cmd ev L)"
    by (rule try_evidence_verified_attempted)
  with Cons.IH show ?case by (simp add: Let_def)
qed

lemma loop_results: "loc_results (evidence_loop e stype cmd evs L) = loc_results L"
  by (induction evs arbitrary: L) (simp_all add: Let_def try_evidence_results)

lemma loop_ai_some: "evs \<noteq> [] \<Longrightarrow> loc_ai (evidence_loop e stype cmd evs L) \<noteq> None"
proof (induction evs arbitrary: L)
  case Nil
  then show ?case by simp
next
  case (Cons ev evs)
  show ?case
  proof (cases evs)
    case Nil
    then show ?thesis by (simp add: Let_def try_evidence_ai)
  next
    case (Cons a list)
    with Cons.IH show ?thesis by (simp add: Let_def try_evidence_ai)
  qed
qed

lemma loop_best_command:
  "\<forall>r. best_result L = Some r \<longrightarrow> command r = cmd \<Longrightarrow>
   best_result (evidence_loop e stype cmd evs L) = Some r \<Longrightarrow> command r = cmd"
proof (induction evs arbitrary: L)
  case Nil
  then show ?case by simp
next
  case (Cons ev evs)
  have step: "\<forall>r. best_result (try_evidence e stype cmd ev L) = Some r \<longrightarrow> command r = cmd"
    using Cons.prems(1) try_evidence_best_command by blast
  show ?case
  proof (cases "cmd_verified (try_evidence e stype cmd ev L)")
    case True
    with Cons.prems(2) step show ?thesis by (simp add: Let_def)
  next
    case False
    with Cons.prems(2) have "best_result (evidence_loop e stype cmd evs (try_evidence e stype cmd ev L)) = Some r"
      by (simp add: Let_def)
    with step show ?thesis by (rule Cons.IH)
  qed
qed

lemma loop_best_some:
  "cmd_attempted L \<longrightarrow> best_result L \<noteq> None \<Longrightarrow>
   cmd_attempted (evidence_loop e stype cmd evs L) \<longrightarrow> best_result (evidence_loop e stype cmd evs L) \<noteq> None"
proof (induction evs arbitrary: L)
  case Nil
  then show ?case by simp
next
  case (Cons ev evs)
  from Cons.prems have "cmd_attempted (try_evidence e stype cmd ev L) \<longrightarrow>
      best_result (try_evidence e stype cmd ev L) \<noteq> None"
    by (rule try_evidence_best_some)
  with Cons.IH show ?case by (simp add: Let_def)
qed

lemma loop_run_log:
  "\<exists>new. run_log (loc_world (evidence_loop e stype cmd evs L)) = run_log (loc_world L) @ new \<and>
         list_all (\<lambda>x. has_placeholder (fst x)) new"
proof (induction evs arbitrary: L)
  case Nil
  then show ?case by simp
next
  case (Cons ev evs)
  let ?L1 = "try_evidence e stype cmd ev L"
  have one: "run_log (loc_world ?L1) =
      run_log (loc_world L) @ (if has_placeholder cmd then [(cmd, ev)] else [])"
    by (rule try_evidence_run_log)
  show ?case
  proof (cases "cmd_verified ?L1")
    case True
    with one show ?thesis by (simp add: Let_def)
  next
    case False
    from Cons.IH [of ?L1] obtain new where
      "run_log (loc_world (evidence_loop e stype cmd evs ?L1)) = run_log (loc_world ?L1) @ new"
      "list_all (\<lambda>x. has_placeholder (fst x)) new" by blast
    with one False show ?thesis by (simp add: Let_def)
  qed
qed

lemma loop_plain:
  "\<not> has_placeholder cmd \<Longrightarrow> \<not> cmd_verified L \<Longrightarrow>
   cmd_attempted (evidence_loop e stype cmd evs L) = cmd_attempted L \<and>
   best_result (evidence_loop e stype cmd evs L) = best_result L \<and>
   (evs \<noteq> [] \<longrightarrow>
      (\<exists>t. loc_ai (evidence_loop e stype cmd evs L) =
             Some (guidance (verifier_oracle e t stype (last evs) cmd))))"
proof (induction evs arbitrary: L)
  case Nil
  then show ?case by simp
next
  case (Cons ev evs)
  let ?L1 = "try_evidence e stype cmd ev L"
  from Cons.prems have p: "cmd_attempted ?L1 = cmd_attempted L" "cmd_verified ?L1 = cmd_verified L"
    "best_result ?L1 = best_result L"
    by (simp_all add: try_evidence_plain)
  with Cons.prems have nv: "\<not> cmd_verified ?L1" by simp
  note ih = Cons.IH [OF Cons.prems(1) nv]
  show ?case
  proof (cases evs)
    case Nil
    with p nv show ?thesis by (auto simp: Let_def try_evidence_ai)
  next
    case (Cons a list)
    with ih p nv show ?thesis by (simp add: Let_def)
  qed
qed


lemma step_verified_attempted:
  assumes "template_step e stype evs L cmd = Inr L'" and "loc_verified L \<longrightarrow> loc_attempted L"
  shows "loc_verified L' \<longrightarrow> loc_attempted L'"
proof -
  let ?L0 = "L\<lparr>cmd_attempted := False, cmd_verified := False, best_result := None\<rparr>"
  let ?L1 = "evidence_loop e stype cmd (take 5 evs) ?L0"
  from assms(2) have "loc_verified ?L0 \<longrightarrow> loc_attempted ?L0" by simp
  then have "loc_verified ?L1 \<longrightarrow> loc_attempted ?L1" by (rule loop_verified_attempted)
  moreover have "loc_verified L' = loc_verified ?L1 \<and> loc_attempted L' = loc_attempted ?L1"
    using assms(1)
    by (auto simp: template_step_def Let_def split: if_splits option.splits)
  ultimately show ?thesis by simp
qed

lemma step_run_log:
  "\<exists>new. run_log (raised_world (template_step e stype evs L cmd)) = run_log (loc_world L) @ new \<and>
         list_all (\<lambda>x. has_placeholder (fst x)) new"
proof -
  let ?L0 = "L\<lparr>cmd_attempted := False, cmd_verified := False, best_result := None\<rparr>"
  let ?L1 = "evidence_loop e stype cmd (take 5 evs) ?L0"
  have "raised_world (template_step e stype evs L cmd) = loc_world ?L1"
    by (auto simp: template_step_def raised_world_def Let_def split: option.splits)
  moreover have "loc_world ?L0 = loc_world L" by simp
  ultimately show ?thesis using loop_run_log [of e stype cmd "take 5 evs" ?L0] by simp
qed

lemma step_appends:
  assumes "evs \<noteq> []"
  shows "\<exists>L' r. template_step e stype evs L cmd = Inr L' \<and>
           loc_results L' = loc_results L @ [r] \<and> command r = cmd \<and>
           (\<not> has_placeholder cmd \<longrightarrow>
              (\<exists>t. r = guidance_only cmd
                   (guidance (verifier_oracle e t stype (last (take 5 evs)) cmd))))"
proof -
  let ?L0 = "L\<lparr>cmd_attempted := False, cmd_verified := False, best_result := None\<rparr>"
  let ?L1 = "evidence_loop e stype cmd (take 5 evs) ?L0"
  from assms have ne: "take 5 evs \<noteq> []" by simp
  have res: "loc_results ?L1 = loc_results L" by (simp add: loop_results)
  from ne obtain ai where ai: "loc_ai ?L1 = Some ai"
    using loop_ai_some [of "take 5 evs" e stype cmd ?L0] by auto
  show ?thesis
  proof (cases "cmd_attempted ?L1")
    case True
    have "cmd_attempted ?L0 \<longrightarrow> best_result ?L0 \<noteq> None" by simp
    then have "cmd_attempted ?L1 \<longrightarrow> best_result ?L1 \<noteq> None" by (rule loop_best_some)
    with True obtain r where r: "best_result ?L1 = Some r" by auto
    have "\<forall>r. best_result ?L0 = Some r \<longrightarrow> command r = cmd" by simp
    then have c: "command r = cmd" using r by (rule loop_best_command)
    have hp: "has_placeholder cmd"
    proof (rule ccontr)
      assume "\<not> has_placeholder cmd"
      then have "cmd_attempted ?L1 = cmd_attempted ?L0"
        using loop_plain [of cmd ?L0 e stype "take 5 evs"] by simp
      with True show False by simp
    qed
    from True r c hp res show ?thesis
      by (simp add: template_step_def Let_def)
  next
    case False
    show ?thesis
    proof (cases "has_placeholder cmd")
      case True
      with False ai res show ?thesis
        by (simp add: template_step_def Let_def guidance_only_def)
    next
      case np: False
      then obtain t where "loc_ai ?L1 = Some (guidance (verifier_oracle e t stype (last (take 5 evs)) cmd))"
        using loop_plain [of cmd ?L0 e stype "take 5 evs"] ne by auto
      with False res np show ?thesis
        by (auto simp: template_step_def Let_def guidance_only_def)
    qed
  qed
qed

lemma tloop_verified_attempted:
  "template_loop e stype evs cmds L = Inr L' \<Longrightarrow> loc_verified L \<longrightarrow> loc_attempted L \<Longrightarrow>
   loc_verified L' \<longrightarrow> loc_attempted L'"
proof (induction cmds arbitrary: L)
  case Nil
  then show ?case by simp
next
  case (Cons cmd cmds)
  from Cons.prems(1) obtain L1 where
    s: "template_step e stype evs L cmd = Inr L1" and
    l: "template_loop e stype evs cmds L1 = Inr L'"
    by (auto split: sum.splits)
  from s Cons.prems(2) have "loc_verified L1 \<longrightarrow> loc_attempted L1"
    by (rule step_verified_attempted)
  with l show ?case by (rule Cons.IH)
qed

lemma tloop_run_log:
  "\<exists>new. run_log (raised_world (template_loop e stype evs cmds L)) = run_log (loc_world L) @ new \<and>
         list_all (\<lambda>x. has_placeholder (fst x)) new"
proof (induction cmds arbitrary: L)
  case Nil
  then show ?case by (simp add: raised_world_def)
next
  case (Cons cmd cmds)
  from step_run_log [of e stype evs L cmd] obtain new where
    n: "run_log (raised_world (template_step e stype evs L cmd)) = run_log (loc_world L) @ new"
       "list_all (\<lambda>x. has_placeholder (fst x)) new" by blast
  show ?case
  proof (cases "template_step e stype evs L cmd")
    case (Inl a)
    with n show ?thesis by (auto simp: raised_world_def split: prod.splits)
  next
    case (Inr L1)
    from Cons.IH [of L1] obtain new' where
      "run_log (raised_world (template_loop e stype evs cmds L1)) = run_log (loc_world L1) @ new'"
      "list_all (\<lambda>x. has_placeholder (fst x)) new'" by blast
    with n Inr show ?thesis by (simp add: raised_world_def)
  qed
qed

lemma tloop_appends:
  assumes "evs \<noteq> []"
  shows "\<exists>L' rs. template_loop e stype evs cmds L = Inr L' \<and>
           loc_results L' = loc_results L @ rs \<and> map command rs = cmds \<and>
           list_all (entry_ok e stype evs) rs"
proof (induction cmds arbitrary: L)
  case Nil
  then show ?case by simp
next
  case (Cons cmd cmds)
  from step_appends [OF assms, of e stype L cmd] obtain L1 r where
    s: "template_step e stype evs L cmd = Inr L1" "loc_results L1 = loc_results L @ [r]"
       "command r = cmd"
       "\<not> has_placeholder cmd \<longrightarrow>
          (\<exists>t. r = guidance_only cmd (guidance (verifier_oracle e t stype (last (take 5 evs)) cmd)))"
    by blast
  from s(3,4) have ok: "entry_ok e stype evs r" by (auto simp: entry_ok_def)
  from Cons.IH [of L1] obtain L' rs where
    l: "template_loop e stype evs cmds L1 = Inr L'" "loc_results L' = loc_results L1 @ rs"
       "map command rs = cmds" "list_all (entry_ok e stype evs) rs" by blast
  from s l ok have "template_loop e stype evs (cmd # cmds) L = Inr L' \<and>
      loc_results L' = loc_results L @ (r # rs) \<and> map command (r # rs) = cmd # cmds \<and>
      list_all (entry_ok e stype evs) (r # rs)" by simp
  then show ?case by (intro exI [of _ L'] exI [of _ "r # rs"])
qed


lemma verify_unreadable:
  "verify_secret_type e (Unreadable ex) stype evid_list w = (verify_failed ex, w)"
  by (simp add: verify_secret_type_def)

lemma verify_readable:
  assumes "\<And>ex. catalog \<noteq> Unreadable ex"
  shows "verify_secret_type e catalog stype evid_list w =
     (case template_loop e stype (map evidence evid_list)
             (take 3 (catalog_commands catalog stype)) (locals0 w) of
        Inl (ex, w') \<Rightarrow> (verify_failed ex, w')
      | Inr L' \<Rightarrow>
          (\<lparr>commands = take 3 (catalog_commands catalog stype), attempted = loc_attempted L',
            verified = loc_verified L', verification_error = None,
            results = loc_results L'\<rparr>, loc_world L'))"
proof (cases catalog)
  case Absent
  show ?thesis unfolding Absent
    by (simp add: verify_secret_type_def catalog_commands_def locals0_def
        cong del: sum.case_cong_weak)
next
  case (Unreadable ex)
  with assms [of ex] show ?thesis by blast
next
  case (Contents md)
  show ?thesis unfolding Contents
    by (simp add: verify_secret_type_def catalog_commands_def locals0_def Let_def
        cong del: sum.case_cong_weak)
qed

lemma tloop_no_evidence:
  "loc_ai L = None \<Longrightarrow>
   template_loop e stype [] cmds L =
     (if cmds = [] then Inr L else Inl (''UnboundLocalError'', loc_world L))"
  by (cases cmds) (simp_all add: template_step_def)

lemma verify_verified_attempted:
  "verified (fst (verify_secret_type e catalog stype evid_list w)) \<longrightarrow>
   attempted (fst (verify_secret_type e catalog stype evid_list w))"
proof (cases "\<exists>ex. catalog = Unreadable ex")
  case True
  then show ?thesis by (auto simp: verify_unreadable verify_failed_def)
next
  case False
  then have r: "\<And>ex. catalog \<noteq> Unreadable ex" by simp
  show ?thesis
  proof (cases "template_loop e stype (map evidence evid_list)
                 (take 3 (catalog_commands catalog stype)) (locals0 w)")
    case (Inl a)
    then show ?thesis
      by (simp add: verify_readable [OF r] verify_failed_def split: prod.splits)
  next
    case (Inr L')
    have "loc_verified (locals0 w) \<longrightarrow> loc_attempted (locals0 w)" by (simp add: locals0_def)
    with Inr have "loc_verified L' \<longrightarrow> loc_attempted L'" by (rule tloop_verified_attempted)
    with Inr show ?thesis by (simp add: verify_readable [OF r])
  qed
qed

lemma verify_run_log:
  "\<exists>new. run_log (snd (verify_secret_type e catalog stype evid_list w)) = run_log w @ new \<and>
         list_all (\<lambda>x. has_placeholder (fst x)) new"
proof (cases "\<exists>ex. catalog = Unreadable ex")
  case True
  then show ?thesis by (auto simp: verify_unreadable)
next
  case False
  then have r: "\<And>ex. catalog \<noteq> Unreadable ex" by simp
  have "snd (verify_secret_type e catalog stype evid_list w) =
      raised_world (template_loop e stype (map evidence evid_list)
         (take 3 (catalog_commands catalog stype)) (locals0 w))"
    by (simp add: verify_readable [OF r] raised_world_def split: sum.splits prod.splits)
  moreover have "loc_world (locals0 w) = w" by (simp add: locals0_def)
  ultimately show ?thesis
    using tloop_run_log [of e stype "map evidence evid_list"
        "take 3 (catalog_commands catalog stype)" "locals0 w"] by simp
qed


lemma verify_entries:
  "list_all (entry_ok e stype (map evidence evid_list))
     (results (fst (verify_secret_type e catalog stype evid_list w)))"
proof (cases "\<exists>ex. catalog = Unreadable ex")
  case True
  then show ?thesis by (auto simp: verify_unreadable verify_failed_def)
next
  case False
  then have r: "\<And>ex. catalog \<noteq> Unreadable ex" by simp
  show ?thesis
  proof (cases "evid_list = []")
    case True
    have "loc_ai (locals0 w) = None" by (simp add: locals0_def)
    then show ?thesis using True
      by (simp add: verify_readable [OF r] verify_failed_def tloop_no_evidence locals0_def)
  next
    case False
    then have "map evidence evid_list \<noteq> []" by simp
    from tloop_appends [OF this, of e stype "take 3 (catalog_commands catalog stype)" "locals0 w"]
    obtain L' rs where
      "template_loop e stype (map evidence evid_list) (take 3 (catalog_commands catalog stype)) (locals0 w) = Inr L'"
      "loc_results L' = loc_results (locals0 w) @ rs"
      "list_all (entry_ok e stype (map evidence evid_list)) rs" by blast
    then show ?thesis
      by (simp add: verify_readable [OF r] locals0_def)
  qed
qed


text \<open>
  Claim C3. Whatever the secret type, the evidence list, the catalog and the environment,
  the dictionary \<^verbatim>\<open>_verify_secret_type\<close> returns has \<open>attempted\<close> set whenever it has
  \<open>verified\<close> set.
\<close>

theorem verified_implies_attempted:
  "verified (fst (verify_secret_type e catalog stype evid_list w)) \<Longrightarrow>
   attempted (fst (verify_secret_type e catalog stype evid_list w))"
  using verify_verified_attempted by blast

theorem verified_implies_attempted_witness:
  "verified (fst (verify_secret_type (demo_env (Exited 0 ''{}'' [])) (Contents example_catalog)
      ''GitHub Token'' example_evidence world0)) \<and>
   attempted (fst (verify_secret_type (demo_env (Exited 0 ''{}'' [])) (Contents example_catalog)
      ''GitHub Token'' example_evidence world0))"
proof -
  have h: "verified (fst (verify_secret_type (demo_env (Exited 0 ''{}'' [])) (Contents example_catalog)
      ''GitHub Token'' example_evidence world0))"
    by code_simp
  from h verified_implies_attempted [OF h] show ?thesis by simp
qed



text \<open>
  Claim C8. Every invocation of \<^verbatim>\<open>run_command\<close> that a verification adds to the log is for a
  template with a recognized placeholder, so no subprocess is run for a template without
  one; and every entry of \<open>results\<close> for such a template carries the sentinel
  \<^verbatim>\<open>No token candidates found\<close> as \<open>evidence_used\<close>, no executed command, no success, and
  as AI status and analysis an answer of the AI verifier for that template (the one for the
  last evidence value asked about).
\<close>

theorem no_placeholder_no_subprocess:
  "(\<exists>new. run_log (snd (verify_secret_type e catalog stype evid_list w)) = run_log w @ new \<and>
          list_all (\<lambda>(cmd, token). has_placeholder cmd) new) \<and>
   (\<forall>r \<in> set (results (fst (verify_secret_type e catalog stype evid_list w))).
      \<not> has_placeholder (command r) \<longrightarrow>
        evidence_used r = ''No token candidates found'' \<and>
        executed_command r = None \<and> \<not> success r \<and>
        (\<exists>t. (ai_status r, ai_analysis r) =
           guidance (verifier_oracle e t stype (last (take 5 (map evidence evid_list))) (command r))))"
proof -
  from verify_run_log [of e catalog stype evid_list w] obtain new where
    "run_log (snd (verify_secret_type e catalog stype evid_list w)) = run_log w @ new"
    "list_all (\<lambda>x. has_placeholder (fst x)) new" by blast
  then have a: "\<exists>new. run_log (snd (verify_secret_type e catalog stype evid_list w)) = run_log w @ new \<and>
          list_all (\<lambda>(cmd, token). has_placeholder cmd) new"
    by (auto simp: case_prod_unfold)
  have b: "\<forall>r \<in> set (results (fst (verify_secret_type e catalog stype evid_list w))).
      \<not> has_placeholder (command r) \<longrightarrow>
        evidence_used r = ''No token candidates found'' \<and>
        executed_command r = None \<and> \<not> success r \<and>
        (\<exists>t. (ai_status r, ai_analysis r) =
           guidance (verifier_oracle e t stype (last (take 5 (map evidence evid_list))) (command r)))"
  proof (intro ballI impI)
    fix r
    assume r: "r \<in> set (results (fst (verify_secret_type e catalog stype evid_list w)))"
      and np: "\<not> has_placeholder (command r)"
    from verify_entries [of e stype evid_list catalog w] r
    have "entry_ok e stype (map evidence evid_list) r" by (simp add: list_all_iff)
    with np obtain t where
      t: "r = guidance_only (command r)
           (guidance (verifier_oracle e t stype (last (take 5 (map evidence evid_list))) (command r)))"
      by (auto simp: entry_ok_def)
    have "evidence_used r = ''No token candidates found'' \<and> executed_command r = None \<and> \<not> success r"
      by (subst t, simp add: guidance_only_def)+
    moreover have "(ai_status r, ai_analysis r) =
        guidance (verifier_oracle e t stype (last (take 5 (map evidence evid_list))) (command r))"
      by (subst t, subst (2) t, simp add: guidance_only_def)
    ultimately show "evidence_used r = ''No token candidates found'' \<and>
        executed_command r = None \<and> \<not> success r \<and>
        (\<exists>t. (ai_status r, ai_analysis r) =
           guidance (verifier_oracle e t stype (last (take 5 (map evidence evid_list))) (command r)))"
      by blast
  qed
  from a b show ?thesis by blast
qed

theorem no_placeholder_no_subprocess_witness:
  "evidence_used (hd (results (fst (verify_secret_type (demo_env TimedOut) (Contents plain_catalog)
      ''Plain Key'' example_evidence world0)))) = ''No token candidates found''"
proof -
  let ?V = "verify_secret_type (demo_env TimedOut) (Contents plain_catalog)
      ''Plain Key'' example_evidence world0"
  have r: "results (fst ?V) = [guidance_only ''curl https://example.com/ping'' (''VALID'', ''plausible'')]"
    by code_simp
  have np: "\<not> has_placeholder ''curl https://example.com/ping''" by code_simp
  from r have m: "hd (results (fst ?V)) \<in> set (results (fst ?V))" by simp
  from r np have c: "\<not> has_placeholder (command (hd (results (fst ?V))))"
    by (simp add: guidance_only_def)
  from no_placeholder_no_subprocess [of "demo_env TimedOut" "Contents plain_catalog"
      "''Plain Key''" example_evidence world0] m c
  show ?thesis by blast
qed

section \<open>Facts about the aggregator\<close>

lemma rank_of_le: "rank_of risk \<le> 4"
  by (simp add: rank_of_def highest_rank_def)

lemma rank_name_some: "n \<le> 4 \<Longrightarrow> \<exists>s. rank_name n = Some s \<and> rank_of s = n"
proof -
  assume "n \<le> 4"
  then have "n = 0 \<or> n = 1 \<or> n = 2 \<or> n = 3 \<or> n = 4" by arith
  then show ?thesis
    by (auto simp: rank_name_def rank_of_def highest_rank_def)
qed

lemma rank_name_zero: "rank_name 0 = Some ''INFO''"
  by (simp add: rank_name_def highest_rank_def)

lemma bucket_step_inr:
  assumes "bucket_step e catalog (fs, m, w) (k, evs) = Inr (fs', m', w')"
  shows "\<exists>f. fs' = fs @ [f] \<and> secret_type f = k \<and> m' = max m (rank_of (severity f))"
  using assms
  by (auto simp: bucket_step_def Let_def make_finding_def split: sum.splits prod.splits)

lemma bucket_loop_inr:
  "bucket_loop e catalog (fs, m, w) bs = Inr (fs', m', w') \<Longrightarrow>
   \<exists>new. fs' = fs @ new \<and> map secret_type new = map fst bs \<and>
         m' = fold max (map (\<lambda>f. rank_of (severity f)) new) m"
proof (induction bs arbitrary: fs m w)
  case Nil
  then show ?case by simp
next
  case (Cons b bs)
  obtain k evs where b: "b = (k, evs)" by (cases b)
  from Cons.prems b obtain fs1 m1 w1 where
    s: "bucket_step e catalog (fs, m, w) (k, evs) = Inr (fs1, m1, w1)" and
    l: "bucket_loop e catalog (fs1, m1, w1) bs = Inr (fs', m', w')"
    by (auto split: sum.splits)
  from bucket_step_inr [OF s] obtain f where
    f: "fs1 = fs @ [f]" "secret_type f = k" "m1 = max m (rank_of (severity f))" by blast
  from Cons.IH [OF l] obtain new where
    n: "fs' = fs1 @ new" "map secret_type new = map fst bs"
       "m' = fold max (map (\<lambda>f. rank_of (severity f)) new) m1" by blast
  from f n b have "fs' = fs @ (f # new) \<and> map secret_type (f # new) = map fst (b # bs) \<and>
      m' = fold max (map (\<lambda>f. rank_of (severity f)) (f # new)) m"
    by (simp add: max.commute)
  then show ?case by (intro exI [of _ "f # new"])
qed

lemma fold_max_Max: "fold max xs (m::nat) = Max (insert m (set xs))"
  using Max.set_eq_fold [of m xs] by simp

lemma sorted_reverse_set: "set (sorted_reverse key xs) = set xs"
  by (simp add: sorted_reverse_def)

lemma sorted_reverse_sorted: "sorted_wrt (\<lambda>a b. key a \<ge> key b) (sorted_reverse key xs)"
proof -
  have "sorted (map key (sort_key key (rev xs)))" by (rule sorted_sort_key)
  then have "sorted_wrt (\<lambda>a b. key a \<le> key b) (sort_key key (rev xs))"
    by (simp add: sorted_map)
  then show ?thesis by (simp add: sorted_reverse_def sorted_wrt_rev)
qed

lemma sorted_reverse_stable:
  "filter (\<lambda>x. key x = k) (sorted_reverse key xs) = filter (\<lambda>x. key x = k) xs"
proof -
  have "filter (\<lambda>x. key x = k) (sorted_reverse key xs)
      = rev (filter (\<lambda>x. key x = k) (sort_key key (rev xs)))"
    by (simp add: sorted_reverse_def rev_filter)
  also have "\<dots> = rev (filter (\<lambda>x. key x = k) (rev xs))"
    by (simp only: sort_key_stable)
  also have "\<dots> = filter (\<lambda>x. key x = k) xs" by (simp add: rev_filter)
  finally show ?thesis .
qed

lemma build_report_inr:
  assumes "build_json_report e catalog secrets w = Inr r"
  shows "\<exists>fs. map secret_type fs = map fst secrets \<and>
           findings r = sorted_reverse (\<lambda>f. rank_of (severity f)) fs \<and>
           rank_name (Max (insert 0 (set (map (\<lambda>f. rank_of (severity f)) fs)))) = Some (overall_risk r) \<and>
           (fs = [] \<longrightarrow> overall_risk r = ''INFO'')"
proof -
  from assms obtain fs m w' where
    l: "bucket_loop e catalog ([], 0, w) secrets = Inr (fs, m, w')"
    by (auto simp: build_json_report_def split: sum.splits)
  from bucket_loop_inr [OF l] have
    o: "map secret_type fs = map fst secrets" and
    m: "m = Max (insert 0 (set (map (\<lambda>f. rank_of (severity f)) fs)))"
    by (auto simp: fold_max_Max)
  from assms l have f: "findings r = sorted_reverse (\<lambda>f. rank_of (severity f)) fs"
    and x: "(if fs \<noteq> [] then rank_name m else Some ''INFO'') = Some (overall_risk r)"
    by (auto simp: build_json_report_def split: option.splits)
  have "rank_name m = Some (overall_risk r) \<and> (fs = [] \<longrightarrow> overall_risk r = ''INFO'')"
  proof (cases "fs = []")
    case True
    with m have "m = 0" by simp
    with x True show ?thesis by (simp add: rank_name_zero)
  next
    case False
    with x show ?thesis by simp
  qed
  with m o f show ?thesis by (intro exI [of _ fs]) simp
qed


lemma rank_name_rank_of: "rank_name n = Some s \<Longrightarrow> rank_of s = n"
  by (auto simp: rank_name_def rank_of_def highest_rank_def split: if_splits)

lemma bucket_loop_le:
  assumes "bucket_loop e catalog ([], 0, w) secrets = Inr (fs, m, w')"
  shows "m \<le> 4"
proof -
  from bucket_loop_inr [OF assms]
  have "m = Max (insert 0 (set (map (\<lambda>f. rank_of (severity f)) fs)))"
    by (auto simp: fold_max_Max)
  then show ?thesis by (auto simp: rank_of_le)
qed

lemma build_report_total:
  assumes "bucket_loop e catalog ([], 0, w) secrets = Inr st"
  shows "\<exists>r. build_json_report e catalog secrets w = Inr r"
proof -
  obtain fs m w' where st: "st = (fs, m, w')" by (cases st)
  with assms have "m \<le> 4" using bucket_loop_le by blast
  then obtain s where "rank_name m = Some s" using rank_name_some by blast
  with assms st show ?thesis by (simp add: build_json_report_def)
qed


text \<open>
  Claim C2. In every report the aggregator builds, \<open>overall_risk\<close> is the name of the
  highest rank among the severities of the findings (rank 0, that is \<^verbatim>\<open>INFO\<close>, where there is
  no finding): no finding ranks above it, and where there is a finding, one has its rank.
\<close>

theorem overall_risk_is_highest_rank:
  assumes "build_json_report e catalog secrets w = Inr r"
  shows "rank_name (Max (insert 0 (set (map (\<lambda>f. rank_of (severity f)) (findings r)))))
           = Some (overall_risk r) \<and>
         (findings r = [] \<longrightarrow> overall_risk r = ''INFO'') \<and>
         (\<forall>f \<in> set (findings r). rank_of (severity f) \<le> rank_of (overall_risk r)) \<and>
         (findings r \<noteq> [] \<longrightarrow>
            (\<exists>f \<in> set (findings r). rank_of (severity f) = rank_of (overall_risk r)))"
proof -
  let ?rank = "\<lambda>f. rank_of (severity f)"
  from build_report_inr [OF assms] obtain fs where
    f: "findings r = sorted_reverse ?rank fs" and
    n: "rank_name (Max (insert 0 (set (map ?rank fs)))) = Some (overall_risk r)" and
    e: "fs = [] \<longrightarrow> overall_risk r = ''INFO''" by blast
  from f have s: "set (findings r) = set fs" by (simp add: sorted_reverse_set)
  then have fe: "findings r = [] \<longleftrightarrow> fs = []" by (metis set_empty)
  let ?M = "Max (insert 0 (set (map ?rank (findings r))))"
  from n s have a: "rank_name ?M = Some (overall_risk r)" by simp
  then have m: "rank_of (overall_risk r) = ?M" by (rule rank_name_rank_of)
  have b: "\<forall>f \<in> set (findings r). ?rank f \<le> rank_of (overall_risk r)"
    unfolding m by simp
  have c: "findings r \<noteq> [] \<longrightarrow> (\<exists>f \<in> set (findings r). ?rank f = rank_of (overall_risk r))"
  proof
    assume ne: "findings r \<noteq> []"
    then have "set (map ?rank (findings r)) \<noteq> {}" by simp
    then have "?M = Max (set (map ?rank (findings r)))"
      by (simp add: max_def)
    moreover have "Max (set (map ?rank (findings r))) \<in> set (map ?rank (findings r))"
      using \<open>set (map ?rank (findings r)) \<noteq> {}\<close> by (intro Max_in) simp_all
    ultimately have "?M \<in> set (map ?rank (findings r))" by simp
    then show "\<exists>f \<in> set (findings r). ?rank f = rank_of (overall_risk r)"
      unfolding m by auto
  qed
  from a e fe b c show ?thesis by blast
qed

theorem overall_risk_is_highest_rank_witness:
  "rank_name (Max (insert 0 (set (map (\<lambda>f. rank_of (severity f))
      (findings (projr (build_json_report (demo_env TimedOut) Absent example_secrets world0)))))))
     = Some (overall_risk (projr (build_json_report (demo_env TimedOut) Absent example_secrets world0))) \<and>
   overall_risk (projr (build_json_report (demo_env TimedOut) Absent example_secrets world0)) = ''CRITICAL''"
proof -
  let ?B = "build_json_report (demo_env TimedOut) Absent example_secrets world0"
  have "\<not> isl ?B" by code_simp
  then have h: "?B = Inr (projr ?B)" by simp
  have c: "overall_risk (projr ?B) = ''CRITICAL''" by code_simp
  from overall_risk_is_highest_rank [OF h] c show ?thesis by blast
qed

text \<open>
  Claim C4. In every report the findings are in descending order of severity rank, and they
  are a stable rearrangement of the findings in the order of their buckets: for each rank,
  the findings of that rank stand in the report in the order in which they were built.
\<close>

theorem findings_sorted_stable:
  assumes "build_json_report e catalog secrets w = Inr r"
  shows "sorted_wrt (\<lambda>a b. rank_of (severity a) \<ge> rank_of (severity b)) (findings r) \<and>
         (\<exists>fs. map secret_type fs = map fst secrets \<and>
            (\<forall>k. filter (\<lambda>f. rank_of (severity f) = k) (findings r)
                  = filter (\<lambda>f. rank_of (severity f) = k) fs))"
proof -
  from build_report_inr [OF assms] obtain fs where
    o: "map secret_type fs = map fst secrets" and
    f: "findings r = sorted_reverse (\<lambda>f. rank_of (severity f)) fs" by blast
  have "sorted_wrt (\<lambda>a b. rank_of (severity a) \<ge> rank_of (severity b)) (findings r)"
    unfolding f by (rule sorted_reverse_sorted)
  moreover have "\<forall>k. filter (\<lambda>f. rank_of (severity f) = k) (findings r)
                  = filter (\<lambda>f. rank_of (severity f) = k) fs"
    unfolding f by (simp add: sorted_reverse_stable)
  ultimately show ?thesis using o by blast
qed

theorem findings_sorted_stable_witness:
  "sorted_wrt (\<lambda>a b. rank_of (severity a) \<ge> rank_of (severity b))
     (findings (projr (build_json_report (demo_env TimedOut) Absent example_secrets world0))) \<and>
   map secret_type (findings (projr (build_json_report (demo_env TimedOut) Absent example_secrets world0)))
     = [''AWS Key'', ''GitHub Token'', ''Stripe Key'', ''Slack Token'']"
proof -
  let ?B = "build_json_report (demo_env TimedOut) Absent example_secrets world0"
  have "\<not> isl ?B" by code_simp
  then have h: "?B = Inr (projr ?B)" by simp
  have c: "map secret_type (findings (projr ?B))
     = [''AWS Key'', ''GitHub Token'', ''Stripe Key'', ''Slack Token'']" by code_simp
  from findings_sorted_stable [OF h] c show ?thesis by blast
qed




section \<open>Facts about the parser\<close>


















section \<open>Facts about the matcher\<close>











section \<open>A subprocess that runs into the timeout\<close>

text \<open>
  Claim C7, at a failing input. Every subprocess runs into the timeout. The attempt is
  recorded with \<open>success = False\<close> and the verification completes, but the command that was
  started is still among the running subprocesses when the call returns.
\<close>

theorem timeout_leaves_subprocess_running:
  "verify_secret_type (demo_env TimedOut) (Contents example_catalog) ''GitHub Token''
      example_evidence world0
   = (\<lparr>commands = [example_template], attempted = True, verified = False,
       verification_error = None,
       results = [failed_result example_template [] (''VALID'', ''plausible'') ''ghp_abc'']\<rparr>,
      \<lparr>ticks = 2, run_log = [(example_template, ''ghp_abc'')],
       running = [substitute example_template ''ghp_abc'']\<rparr>)"
  by code_simp

end
